theory Spec2Isabelle
  imports Complex_Main
begin

section \<open>Text anchors: \<^verbatim>\<open>src/utils/text-anchor.js\<close>\<close>

text \<open>
  JavaScript strings are modelled as \<^typ>\<open>string\<close> (a list of characters; the code
  only compares code units for equality and takes substrings), numbers that hold
  positions as \<^typ>\<open>int\<close>, and the scores, which are multiples of one half below
  two hundred and therefore exact in a double, as \<^typ>\<open>rat\<close>.
\<close>

definition CONTEXT_LENGTH :: int where
  "CONTEXT_LENGTH = 32"

text \<open>\<^verbatim>\<open>String.prototype.substring\<close>: both indices are clamped to the string and
  swapped when the first exceeds the second.\<close>

definition substring :: "string \<Rightarrow> int \<Rightarrow> int \<Rightarrow> string" where
  "substring s a b =
     (let n = int (length s);
          a' = min (max a 0) n;
          b' = min (max b 0) n;
          lo = min a' b';
          hi = max a' b'
      in take (nat (hi - lo)) (drop (nat lo) s))"

text \<open>\<^verbatim>\<open>String.prototype.startsWith\<close> and \<^verbatim>\<open>endsWith\<close> with one argument.\<close>

definition startsWith :: "string \<Rightarrow> string \<Rightarrow> bool" where
  "startsWith s t = (take (length t) s = t)"

definition endsWith :: "string \<Rightarrow> string \<Rightarrow> bool" where
  "endsWith s t = (length t \<le> length s \<and> drop (length s - length t) s = t)"

record anchor =
  prefix :: string
  exact :: string
  suffix :: string

record position =
  pfrom :: int
  pto :: int

record scoredMatch = position +
  score :: rat

datatype error = SyntaxError | TypeError

subsection \<open>escapeRegex and the regular expression it feeds\<close>

text \<open>The character class \<^verbatim>\<open>[.*+?^${}()|[\]\\]\<close> of \<^verbatim>\<open>escapeRegex\<close>: the fourteen
  syntax characters of a JavaScript pattern.\<close>

definition backslash :: char where
  "backslash = CHR 0x5C"

definition regexSpecial :: "char \<Rightarrow> bool" where
  "regexSpecial c = (c \<in> set ''.*+?^${}()|[]'' \<or> c = backslash)"

text \<open>\<^verbatim>\<open>str.replace(/[...]/g, '\\$&')\<close>: every syntax character is replaced by a
  backslash followed by itself.\<close>

fun escapeRegex :: "string \<Rightarrow> string" where
  "escapeRegex [] = []"
| "escapeRegex (c # cs) =
     (if regexSpecial c then backslash # c # escapeRegex cs else c # escapeRegex cs)"

text \<open>
  \<^verbatim>\<open>new RegExp(source, 'g')\<close> on the fragment of pattern sources that consist of
  pattern characters (any character that is not a syntax character matches itself) and
  identity escapes (a backslash followed by a syntax character matches that character).
  The result is the literal text such a pattern matches; any other source is outside the
  fragment and reported as \<^const>\<open>None\<close>.
\<close>

fun compilePattern :: "string \<Rightarrow> string option" where
  "compilePattern [] = Some []"
| "compilePattern [c] = (if regexSpecial c then None else Some [c])"
| "compilePattern (c # d # cs) =
     (if c = backslash then
        (if regexSpecial d then map_option ((#) d) (compilePattern cs) else None)
      else if regexSpecial c then None
      else map_option ((#) c) (compilePattern (d # cs)))"

text \<open>The leftmost position \<open>\<ge> i\<close> at which the literal matches, scanning the rest of
  the input; the empty literal matches at once, also at the very end.\<close>

fun scanFrom :: "string \<Rightarrow> string \<Rightarrow> nat \<Rightarrow> nat option" where
  "scanFrom lit [] i = (if lit = [] then Some i else None)"
| "scanFrom lit (c # cs) i =
     (if startsWith (c # cs) lit then Some i else scanFrom lit cs (Suc i))"

text \<open>
  \<^verbatim>\<open>RegExp.prototype.exec\<close> of a global literal pattern: the search starts at
  \<^verbatim>\<open>lastIndex\<close>; a match at \<open>i\<close> returns \<open>i\<close> and sets \<^verbatim>\<open>lastIndex\<close> to
  the end of the match; a failure returns null and resets \<^verbatim>\<open>lastIndex\<close> to 0.
  The result is the pair of the match index and the new \<^verbatim>\<open>lastIndex\<close>.
\<close>

definition regexExec :: "string \<Rightarrow> string \<Rightarrow> nat \<Rightarrow> nat option \<times> nat" where
  "regexExec lit doc lastIndex =
     (if lastIndex > length doc then (None, 0)
      else case scanFrom lit (drop lastIndex doc) lastIndex of
             None \<Rightarrow> (None, 0)
           | Some i \<Rightarrow> (Some i, i + length lit))"

subsection \<open>createAnchor\<close>

definition createAnchor :: "string \<Rightarrow> int \<Rightarrow> int \<Rightarrow> anchor" where
  "createAnchor doc from to =
     (let ex = substring doc from to;
          prefixStart = max 0 (from - CONTEXT_LENGTH);
          pfx = substring doc prefixStart from;
          suffixEnd = min (int (length doc)) (to + CONTEXT_LENGTH);
          sfx = substring doc to suffixEnd
      in \<lparr>prefix = pfx, exact = ex, suffix = sfx\<rparr>)"

subsection \<open>findAnchorPosition\<close>

text \<open>
  The loop \<^verbatim>\<open>while ((match = exactRegex.exec(doc)) !== null) matches.push(...)\<close>.
  Nothing in the loop bounds the number of rounds, so it is a partial function:
  \<^const>\<open>None\<close> is the run that never leaves the loop.
\<close>

partial_function (option) execLoop ::
  "string \<Rightarrow> string \<Rightarrow> string \<Rightarrow> nat \<Rightarrow> position list \<Rightarrow> position list option" where
  "execLoop lit ex doc lastIndex matches =
     (case fst (regexExec lit doc lastIndex) of
        None \<Rightarrow> Some matches
      | Some index \<Rightarrow>
          execLoop lit ex doc (snd (regexExec lit doc lastIndex))
            (matches @ [\<lparr>pfrom = int index, pto = int index + int (length ex)\<rparr>]))"

declare execLoop.simps [code]

text \<open>The partial-credit loops over the stored and the actual context.\<close>

function suffixLoop :: "string \<Rightarrow> string \<Rightarrow> nat \<Rightarrow> nat \<Rightarrow> rat \<Rightarrow> rat" where
  "suffixLoop sfx actualSuffix minLen i sc =
     (if i < minLen then
        (if sfx ! i = actualSuffix ! i
         then suffixLoop sfx actualSuffix minLen (i + 1) (sc + 1)
         else sc)
      else sc)"
  by pat_completeness auto
termination
  by (relation "measure (\<lambda>(s, a, m, i, sc). m - i)") auto

function prefixLoop :: "string \<Rightarrow> string \<Rightarrow> nat \<Rightarrow> nat \<Rightarrow> rat \<Rightarrow> rat" where
  "prefixLoop pfx actualPrefix minLen i sc =
     (if i \<le> minLen then
        (if pfx ! (length pfx - i) = actualPrefix ! (length actualPrefix - i)
         then prefixLoop pfx actualPrefix minLen (i + 1) (sc + 1 / 2)
         else sc)
      else sc)"
  by pat_completeness auto
termination
  by (relation "measure (\<lambda>(p, a, m, i, sc). Suc m - i)") auto

definition scoreMatch :: "string \<Rightarrow> anchor \<Rightarrow> position \<Rightarrow> scoredMatch" where
  "scoreMatch doc anchor pos =
     (let actualPrefixStart = max 0 (pfrom pos - CONTEXT_LENGTH);
          actualPrefix = substring doc actualPrefixStart (pfrom pos);
          actualSuffixEnd = min (int (length doc)) (pto pos + CONTEXT_LENGTH);
          actualSuffix = substring doc (pto pos) actualSuffixEnd;
          score0 = 0;
          score1 =
            (if suffix anchor \<noteq> [] \<and> startsWith actualSuffix (suffix anchor) then score0 + 100
             else if suffix anchor \<noteq> [] \<and> length (suffix anchor) > 0 then
               suffixLoop (suffix anchor) actualSuffix
                 (min (length (suffix anchor)) (length actualSuffix)) 0 score0
             else score0);
          score2 =
            (if prefix anchor \<noteq> [] \<and> endsWith actualPrefix (prefix anchor) then score1 + 50
             else if prefix anchor \<noteq> [] \<and> length (prefix anchor) > 0 then
               prefixLoop (prefix anchor) actualPrefix
                 (min (length (prefix anchor)) (length actualPrefix)) 1 score1
             else score1)
      in \<lparr>pfrom = pfrom pos, pto = pto pos, score = score2\<rparr>)"

text \<open>\<^verbatim>\<open>scoredMatches.sort((a, b) => b.score - a.score)\<close>: a stable sort by descending
  score.\<close>

definition sortByScore :: "scoredMatch list \<Rightarrow> scoredMatch list" where
  "sortByScore ms = sort_key (\<lambda>m. - score m) ms"

text \<open>
  The result is \<^const>\<open>None\<close> when the call does not return, \<open>Some (Inl e)\<close> when it
  throws, \<open>Some (Inr None)\<close> when it returns null and \<open>Some (Inr (Some p))\<close> when it
  returns the position \<open>p\<close>.
\<close>

definition findAnchorPosition :: "string \<Rightarrow> anchor \<Rightarrow> (error + position option) option" where
  "findAnchorPosition doc anchor =
     (if doc = [] \<or> length doc = 0 then Some (Inr None)
      else case compilePattern (escapeRegex (exact anchor)) of
             None \<Rightarrow> Some (Inl SyntaxError)
           | Some lit \<Rightarrow>
               (case execLoop lit (exact anchor) doc 0 [] of
                  None \<Rightarrow> None
                | Some matches \<Rightarrow>
                    if length matches = 0 then Some (Inr None)
                    else if length matches = 1 then Some (Inr (Some (matches ! 0)))
                    else
                      (case sortByScore (map (scoreMatch doc anchor) matches) of
                         [] \<Rightarrow> Some (Inl TypeError)
                       | bestMatch # _ \<Rightarrow>
                           Some (Inr (Some \<lparr>pfrom = pfrom bestMatch, pto = pto bestMatch\<rparr>)))))"

section \<open>File histories\<close>

subsection \<open>The history manager of the specification\<close>

text \<open>
  Modelled from the spec: the history manager (\<^verbatim>\<open>createSnapshot\<close>, \<^verbatim>\<open>undo\<close>,
  \<^verbatim>\<open>redo\<close> of \<^verbatim>\<open>src/storage/history-manager.js\<close>, which
  \<^verbatim>\<open>docs/CHANGE_TRACKING_FEATURE_GUIDE.md\<close> names) is not among the source files. The
  data model follows section 3 of the specification: a snapshot is
  \<open>{content, timestamp, cursor: {line, column}, scroll: {top, left}}\<close>.
\<close>

record snapshot =
  content :: string
  timestamp :: int
  cursor :: "int \<times> int"
  scroll :: "int \<times> int"

text \<open>Modelled from the spec: a file history is \<open>{snapshots, currentIndex}\<close>, one per file
  path, held in a mapping keyed by the file path (the class \<^verbatim>\<open>FileHistory\<close> and the map
  \<^verbatim>\<open>histories\<close> are missing from the source files).\<close>

record fileHistory =
  snapshots :: "snapshot list"
  currentIndex :: int

type_synonym historyManager = "string \<rightharpoonup> fileHistory"

text \<open>Modelled from the spec: the invariant \<open>-1 \<le> currentIndex < snapshots.length\<close> of
  the missing \<^verbatim>\<open>FileHistory\<close>.\<close>

definition validHistory :: "fileHistory \<Rightarrow> bool" where
  "validHistory h = (- 1 \<le> currentIndex h \<and> currentIndex h < int (length (snapshots h)))"

text \<open>Modelled from the spec: the state of the missing \<^verbatim>\<open>FileHistory\<close> constructor,
  no snapshots and \<open>currentIndex = -1\<close>; a file without an entry behaves as this empty
  history.\<close>

definition emptyHistory :: fileHistory where
  "emptyHistory = \<lparr>snapshots = [], currentIndex = - 1\<rparr>"

definition historyOf :: "historyManager \<Rightarrow> string \<Rightarrow> fileHistory" where
  "historyOf hm filePath = (case hm filePath of None \<Rightarrow> emptyHistory | Some h \<Rightarrow> h)"

text \<open>Modelled from the spec: "the snapshot now pointed to" of the missing
  \<^verbatim>\<open>undo\<close> and \<^verbatim>\<open>redo\<close>; an index outside the list points to no snapshot.\<close>

definition snapshotAt :: "fileHistory \<Rightarrow> int \<Rightarrow> snapshot option" where
  "snapshotAt h i =
     (if 0 \<le> i \<and> i < int (length (snapshots h)) then Some (snapshots h ! nat i) else None)"

text \<open>
  Modelled from the spec: the missing \<^verbatim>\<open>createSnapshot(filePath, content, cursor, scroll)\<close>.
  It appends a new snapshot; if \<open>currentIndex\<close> is not at the tail, all snapshots after
  \<open>currentIndex\<close> are discarded before appending; it sets
  \<open>currentIndex = snapshots.length - 1\<close>. The history is created on the first snapshot of a
  file; \<open>now\<close> is the clock reading that becomes the timestamp.
\<close>

definition createSnapshot ::
  "historyManager \<Rightarrow> int \<Rightarrow> string \<Rightarrow> string \<Rightarrow> int \<times> int \<Rightarrow> int \<times> int \<Rightarrow> historyManager" where
  "createSnapshot hm now filePath cont cur scr =
     (let h = historyOf hm filePath;
          kept = (if currentIndex h < int (length (snapshots h)) - 1
                  then take (nat (currentIndex h + 1)) (snapshots h)
                  else snapshots h);
          snaps = kept @ [\<lparr>content = cont, timestamp = now, cursor = cur, scroll = scr\<rparr>]
      in hm(filePath \<mapsto> \<lparr>snapshots = snaps, currentIndex = int (length snaps) - 1\<rparr>))"

text \<open>Modelled from the spec: the missing \<^verbatim>\<open>undo(filePath)\<close>. If
  \<open>currentIndex \<le> 0\<close> it returns null; else it decrements \<open>currentIndex\<close> and returns the
  snapshot now pointed to. The result is the returned value and the manager afterwards.\<close>

definition undo :: "historyManager \<Rightarrow> string \<Rightarrow> snapshot option \<times> historyManager" where
  "undo hm filePath =
     (let h = historyOf hm filePath
      in if currentIndex h \<le> 0 then (None, hm)
         else (snapshotAt h (currentIndex h - 1),
               hm(filePath \<mapsto> h\<lparr>currentIndex := currentIndex h - 1\<rparr>)))"

text \<open>Modelled from the spec: the missing \<^verbatim>\<open>redo(filePath)\<close>. If
  \<open>currentIndex \<ge> snapshots.length - 1\<close> it returns null; else it increments and returns.\<close>

definition redo :: "historyManager \<Rightarrow> string \<Rightarrow> snapshot option \<times> historyManager" where
  "redo hm filePath =
     (let h = historyOf hm filePath
      in if currentIndex h \<ge> int (length (snapshots h)) - 1 then (None, hm)
         else (snapshotAt h (currentIndex h + 1),
               hm(filePath \<mapsto> h\<lparr>currentIndex := currentIndex h + 1\<rparr>)))"

subsection \<open>The navigation history of \<^verbatim>\<open>app.js\<close>\<close>

text \<open>
  The application keeps its folder navigation in the same kind of history:
  \<^verbatim>\<open>navigationHistory\<close> and \<^verbatim>\<open>historyIndex\<close>, with \<^verbatim>\<open>addToHistory\<close>,
  \<^verbatim>\<open>goBack\<close> and \<^verbatim>\<open>goForward\<close>. Handles of the file system are values of
  an arbitrary type \<open>'h\<close>. Of the application state only the variables these functions
  read or assign before their first \<^verbatim>\<open>await\<close> are kept; saving temporary changes,
  reading the file and updating the editor and the page are outside the model (none of
  them assigns \<^verbatim>\<open>navigationHistory\<close> or \<^verbatim>\<open>historyIndex\<close>).
\<close>

record 'h navEntry =
  path :: "(string \<times> 'h) list"
  dirHandle :: "'h option"
  fileHandle :: "'h option"
  filename :: string

record 'h appState =
  currentFileHandle :: "'h option"
  currentFilename :: string
  currentDirHandle :: "'h option"
  currentPath :: "(string \<times> 'h) list"
  navigationHistory :: "'h navEntry list"
  historyIndex :: int

text \<open>\<^verbatim>\<open>array.slice(0, e)\<close>: a negative \<open>e\<close> counts from the end.\<close>

definition sliceTo :: "'a list \<Rightarrow> int \<Rightarrow> 'a list" where
  "sliceTo xs e = (if e < 0 then take (nat (int (length xs) + e)) xs else take (nat e) xs)"

definition addToHistory :: "'h appState \<Rightarrow> 'h appState" where
  "addToHistory st =
     (let nh = sliceTo (navigationHistory st) (historyIndex st + 1)
               @ [\<lparr>path = currentPath st, dirHandle = currentDirHandle st,
                   fileHandle = currentFileHandle st, filename = currentFilename st\<rparr>]
      in st\<lparr>navigationHistory := nh, historyIndex := int (length nh) - 1\<rparr>)"

text \<open>
  The steps that \<^verbatim>\<open>goBack\<close> and \<^verbatim>\<open>goForward\<close> share after moving
  \<^verbatim>\<open>historyIndex\<close> to \<open>i\<close>: \<^verbatim>\<open>state = navigationHistory[historyIndex]\<close> and the
  assignments from it. Outside the array \<^verbatim>\<open>state\<close> is undefined and reading
  \<^verbatim>\<open>state.path\<close> throws.
\<close>

definition restore :: "'h appState \<Rightarrow> int \<Rightarrow> error + 'h appState" where
  "restore st i =
     (if 0 \<le> i \<and> i < int (length (navigationHistory st)) then
        (let state = navigationHistory st ! nat i
         in Inr (st\<lparr>historyIndex := i, currentPath := path state,
                    currentDirHandle := dirHandle state,
                    currentFileHandle := fileHandle state,
                    currentFilename := filename state\<rparr>))
      else Inl TypeError)"

definition goBack :: "'h appState \<Rightarrow> error + 'h appState" where
  "goBack st = (if historyIndex st \<le> 0 then Inr st else restore st (historyIndex st - 1))"

definition goForward :: "'h appState \<Rightarrow> error + 'h appState" where
  "goForward st =
     (if historyIndex st \<ge> int (length (navigationHistory st)) - 1 then Inr st
      else restore st (historyIndex st + 1))"

section \<open>Notions used to state the properties\<close>

text \<open>\<open>slice s a b\<close> is the text written \<open>s[a:b]\<close>: the characters at positions
  \<open>a\<close> up to, not including, \<open>b\<close>.\<close>

definition slice :: "string \<Rightarrow> nat \<Rightarrow> nat \<Rightarrow> string" where
  "slice s a b = take (b - a) (drop a s)"

text \<open>The text \<open>ex\<close> occurs literally in \<open>doc\<close> at position \<open>p\<close>.\<close>

definition occursAt :: "string \<Rightarrow> string \<Rightarrow> nat \<Rightarrow> bool" where
  "occursAt ex doc p = (p + length ex \<le> length doc \<and> slice doc p (p + length ex) = ex)"

text \<open>The entry pushed on \<^verbatim>\<open>matches\<close> for a match at index \<open>i\<close>.\<close>

definition mkPos :: "string \<Rightarrow> nat \<Rightarrow> position" where
  "mkPos ex i = \<lparr>pfrom = int i, pto = int i + int (length ex)\<rparr>"

text \<open>
  The indices that successive calls of \<^const>\<open>regexExec\<close> report for a non-empty
  literal, starting at \<open>li\<close>: each call resumes at the end of the previous match, so
  the reported occurrences never overlap. For a non-empty literal every call moves
  forward, which makes this a total function; it is what \<^const>\<open>execLoop\<close> is shown
  to collect (lemma \<open>execLoop_matchesFrom\<close>).
\<close>

function matchesFrom :: "string \<Rightarrow> string \<Rightarrow> nat \<Rightarrow> nat list" where
  "matchesFrom lit doc li =
     (if lit = [] then []
      else case fst (regexExec lit doc li) of
             None \<Rightarrow> []
           | Some i \<Rightarrow> i # matchesFrom lit doc (i + length lit))"
  by pat_completeness auto
termination
proof (relation "measure (\<lambda>(lit, doc, li). Suc (length doc) - li)")
  show "wf (measure (\<lambda>(lit, doc, li). Suc (length doc) - li))" by simp
next
  fix lit doc :: string and li i :: nat
  assume ne: "lit \<noteq> []" and r: "fst (regexExec lit doc li) = Some i"
  have mono: "scanFrom lit rest k = Some j \<Longrightarrow> k \<le> j" for rest k j
  proof (induction rest arbitrary: k)
    case Nil
    then show ?case by (simp split: if_splits)
  next
    case (Cons c cs)
    then show ?case by (auto split: if_splits dest: Suc_leD)
  qed
  from r have b: "li \<le> length doc" by (auto simp: regexExec_def split: if_splits)
  with r have "scanFrom lit (drop li doc) li = Some i"
    by (auto simp: regexExec_def split: option.splits)
  then have "li \<le> i" by (rule mono)
  with b ne show "((lit, doc, i + length lit), (lit, doc, li))
        \<in> measure (\<lambda>(lit, doc, li). Suc (length doc) - li)"
    by (cases lit) auto
qed

declare matchesFrom.simps [simp del]

text \<open>The context that \<^const>\<open>scoreMatch\<close> reads around a candidate: up to 32
  characters before it (\<^verbatim>\<open>actualPrefix\<close>) and after it (\<^verbatim>\<open>actualSuffix\<close>).\<close>

definition contextBefore :: "string \<Rightarrow> position \<Rightarrow> string" where
  "contextBefore doc pos = substring doc (max 0 (pfrom pos - CONTEXT_LENGTH)) (pfrom pos)"

definition contextAfter :: "string \<Rightarrow> position \<Rightarrow> string" where
  "contextAfter doc pos =
     substring doc (pto pos) (min (int (length doc)) (pto pos + CONTEXT_LENGTH))"

text \<open>The number of characters of two texts that match in order from the start until
  the first mismatch.\<close>

fun matchingRun :: "string \<Rightarrow> string \<Rightarrow> nat" where
  "matchingRun (x # xs) (y # ys) = (if x = y then Suc (matchingRun xs ys) else 0)"
| "matchingRun _ _ = 0"

text \<open>
  The score as the specification words it: 100 when the actual suffix starts with the
  stored non-empty suffix, else 1 per character matching from the start of the suffix;
  plus 50 when the actual prefix ends with the stored non-empty prefix, else one half per
  character matching backward from the end of the prefix.
\<close>

definition describedScore :: "string \<Rightarrow> anchor \<Rightarrow> position \<Rightarrow> rat" where
  "describedScore doc a pos =
     (if suffix a \<noteq> [] \<and> startsWith (contextAfter doc pos) (suffix a) then 100
      else of_nat (matchingRun (suffix a) (contextAfter doc pos)))
   + (if prefix a \<noteq> [] \<and> endsWith (contextBefore doc pos) (prefix a) then 50
      else of_nat (matchingRun (rev (prefix a)) (rev (contextBefore doc pos))) / 2)"



section \<open>The scan for occurrences\<close>

text \<open>Escaping makes the pattern a literal: the compiled pattern of an escaped text
  matches exactly that text, whatever syntax characters it contains.\<close>

lemma compile_escape: "compilePattern (escapeRegex s) = Some s"
proof (induction s)
  case Nil
  then show ?case by simp
next
  case (Cons c cs)
  show ?case
  proof (cases "regexSpecial c")
    case True
    then show ?thesis using Cons by (simp add: regexSpecial_def)
  next
    case False
    then have nb: "c \<noteq> backslash" by (auto simp: regexSpecial_def)
    show ?thesis
    proof (cases "escapeRegex cs")
      case Nil
      then have "cs = []" by (cases cs) (auto split: if_splits)
      then show ?thesis using False by simp
    next
      case (Cons d ds)
      then show ?thesis using False nb Cons.IH by simp
    qed
  qed
qed

lemma startsWith_length:
  assumes "startsWith s t"
  shows "length t \<le> length s"
proof -
  have "length (take (length t) s) = length t" using assms by (simp add: startsWith_def)
  then show ?thesis by simp
qed

lemma occursAt_startsWith: "occursAt ex doc p \<longleftrightarrow> p \<le> length doc \<and> startsWith (drop p doc) ex"
proof
  assume "occursAt ex doc p"
  then show "p \<le> length doc \<and> startsWith (drop p doc) ex"
    by (auto simp: occursAt_def slice_def startsWith_def)
next
  assume a: "p \<le> length doc \<and> startsWith (drop p doc) ex"
  then have "length ex \<le> length (drop p doc)" using startsWith_length by blast
  then show "occursAt ex doc p" using a
    by (auto simp: occursAt_def slice_def startsWith_def)
qed

lemma scanFrom_Some:
  "scanFrom lit rest i = Some j \<Longrightarrow>
     i \<le> j \<and> j - i \<le> length rest \<and> startsWith (drop (j - i) rest) lit
     \<and> (\<forall>k. i \<le> k \<and> k < j \<longrightarrow> \<not> startsWith (drop (k - i) rest) lit)"
proof (induction rest arbitrary: i)
  case Nil
  then show ?case by (auto simp: startsWith_def split: if_splits)
next
  case (Cons c cs)
  show ?case
  proof (cases "startsWith (c # cs) lit")
    case True
    then show ?thesis using Cons.prems by simp
  next
    case False
    then have s: "scanFrom lit cs (Suc i) = Some j" using Cons.prems by simp
    from Cons.IH [OF s] have ih: "Suc i \<le> j" "j - Suc i \<le> length cs"
      "startsWith (drop (j - Suc i) cs) lit"
      "\<forall>k. Suc i \<le> k \<and> k < j \<longrightarrow> \<not> startsWith (drop (k - Suc i) cs) lit" by auto
    have d: "\<And>k. Suc i \<le> k \<Longrightarrow> drop (k - i) (c # cs) = drop (k - Suc i) cs"
      by (metis Suc_diff_le Suc_le_D diff_Suc_Suc drop_Suc_Cons)
    have "\<not> startsWith (drop (k - i) (c # cs)) lit" if "i \<le> k" "k < j" for k
    proof (cases "k = i")
      case True
      then show ?thesis using False by simp
    next
      case False
      then have "Suc i \<le> k" using that by simp
      then show ?thesis using ih(4) that d by simp
    qed
    then show ?thesis using ih d [of j] by auto
  qed
qed


lemma regexExec_Some:
  assumes "fst (regexExec lit doc li) = Some i"
  shows "li \<le> i \<and> li \<le> length doc \<and> occursAt lit doc i
         \<and> (\<forall>k. li \<le> k \<and> k < i \<longrightarrow> \<not> occursAt lit doc k)
         \<and> snd (regexExec lit doc li) = i + length lit"
proof -
  from assms have li: "li \<le> length doc" by (auto simp: regexExec_def split: if_splits)
  from assms li have s: "scanFrom lit (drop li doc) li = Some i"
    by (auto simp: regexExec_def split: option.splits)
  note f = scanFrom_Some [OF s]
  have d: "\<And>k. li \<le> k \<Longrightarrow> drop (k - li) (drop li doc) = drop k doc" by simp
  have "occursAt lit doc i" using f li d [of i] by (auto simp: occursAt_startsWith)
  moreover have "\<not> occursAt lit doc k" if "li \<le> k" "k < i" for k
    using f that d [of k] by (auto simp: occursAt_startsWith)
  moreover have "snd (regexExec lit doc li) = i + length lit"
    using s li by (simp add: regexExec_def)
  ultimately show ?thesis using f li by auto
qed


lemma execLoop_matchesFrom:
  "lit \<noteq> [] \<Longrightarrow>
   execLoop lit ex doc li ms = Some (ms @ map (mkPos ex) (matchesFrom lit doc li))"
proof (induction lit doc li arbitrary: ms rule: matchesFrom.induct)
  case (1 lit doc li)
  show ?case
  proof (cases "fst (regexExec lit doc li)")
    case None
    then show ?thesis using "1.prems"
      by (subst execLoop.simps, subst matchesFrom.simps) simp
  next
    case (Some i)
    have sn: "snd (regexExec lit doc li) = i + length lit"
      using regexExec_Some [OF Some] by simp
    show ?thesis
      using "1.IH" [OF "1.prems" Some "1.prems"] Some sn "1.prems"
      by (subst execLoop.simps, subst matchesFrom.simps) (simp add: mkPos_def)
  qed
qed

lemma execLoop_empty_diverges:
  assumes "li \<le> length doc"
  shows "execLoop [] ex doc li ms = None"
proof (cases "execLoop [] ex doc li ms")
  case None
  then show ?thesis .
next
  case (Some r)
  have "[] = ([] :: string) \<longrightarrow> li \<le> length doc \<longrightarrow> False"
  proof (rule execLoop.raw_induct
      [where P = "\<lambda>lit ex doc li ms r. lit = [] \<longrightarrow> li \<le> length doc \<longrightarrow> False", OF _ Some])
    fix f :: "string \<Rightarrow> string \<Rightarrow> string \<Rightarrow> nat \<Rightarrow> position list \<Rightarrow> position list option"
    fix lit ex doc li ms r
    assume ih: "\<And>lit ex doc li ms r. f lit ex doc li ms = Some r \<Longrightarrow>
                  lit = [] \<longrightarrow> li \<le> length doc \<longrightarrow> False"
    assume body: "(case fst (regexExec lit doc li) of
                     None \<Rightarrow> Some ms
                   | Some index \<Rightarrow>
                       f lit ex doc (snd (regexExec lit doc li))
                         (ms @ [\<lparr>pfrom = int index, pto = int index + int (length ex)\<rparr>])) = Some r"
    show "lit = [] \<longrightarrow> li \<le> length doc \<longrightarrow> False"
    proof (intro impI)
      assume l: "lit = []" and b: "li \<le> length doc"
      have e: "regexExec [] doc li = (Some li, li)"
        using b by (cases "drop li doc") (auto simp: regexExec_def startsWith_def)
      from body l e
      have "f [] ex doc li (ms @ [\<lparr>pfrom = int li, pto = int li + int (length ex)\<rparr>]) = Some r"
        by simp
      from ih [OF this] b show False by simp
    qed
  qed
  then show ?thesis using assms by simp
qed

lemma matchesFrom_occurs:
  "i \<in> set (matchesFrom lit doc li) \<Longrightarrow> li \<le> i \<and> occursAt lit doc i"
proof (induction lit doc li rule: matchesFrom.induct)
  case (1 lit doc li)
  show ?case
  proof (cases "lit = []")
    case True
    then show ?thesis using "1.prems" by (subst (asm) matchesFrom.simps) simp
  next
    case ne: False
    show ?thesis
    proof (cases "fst (regexExec lit doc li)")
      case None
      then show ?thesis using "1.prems" ne by (subst (asm) matchesFrom.simps) simp
    next
      case (Some j)
      from "1.prems" ne Some have "i = j \<or> i \<in> set (matchesFrom lit doc (j + length lit))"
        by (subst (asm) matchesFrom.simps) simp
      then show ?thesis
      proof
        assume "i = j"
        then show ?thesis using regexExec_Some [OF Some] by simp
      next
        assume "i \<in> set (matchesFrom lit doc (j + length lit))"
        from "1.IH" [OF ne Some this] regexExec_Some [OF Some] show ?thesis by simp
      qed
    qed
  qed
qed





lemma hd_insort_key:
  "hd (insort_key f x ys) = (if ys = [] then x else if f x \<le> f (hd ys) then x else hd ys)"
  by (cases ys) auto

lemma sort_key_ne: "xs \<noteq> [] \<Longrightarrow> sort_key f xs \<noteq> []"
  by (metis length_0_conv length_sort)

lemma sort_key_hd:
  "xs \<noteq> [] \<Longrightarrow>
   \<exists>i<length xs. hd (sort_key f xs) = xs ! i
      \<and> (\<forall>j<length xs. f (xs ! i) \<le> f (xs ! j))
      \<and> (\<forall>j<i. f (xs ! i) < f (xs ! j))"
proof (induction xs)
  case Nil
  then show ?case by simp
next
  case (Cons x xs)
  show ?case
  proof (cases "xs = []")
    case True
    then show ?thesis by simp
  next
    case False
    from Cons.IH [OF False] obtain i where i: "i < length xs"
      "hd (sort_key f xs) = xs ! i"
      "\<forall>j<length xs. f (xs ! i) \<le> f (xs ! j)"
      "\<forall>j<i. f (xs ! i) < f (xs ! j)" by blast
    have s: "sort_key f (x # xs) = insort_key f x (sort_key f xs)" by simp
    have ne: "sort_key f xs \<noteq> []" using False by (rule sort_key_ne)
    show ?thesis
    proof (cases "f x \<le> f (xs ! i)")
      case True
      then have h: "hd (sort_key f (x # xs)) = (x # xs) ! 0"
        using s ne i(2) by (simp add: hd_insort_key)
      have "\<forall>j<length (x # xs). f ((x # xs) ! 0) \<le> f ((x # xs) ! j)"
      proof (intro allI impI)
        fix j assume "j < length (x # xs)"
        then show "f ((x # xs) ! 0) \<le> f ((x # xs) ! j)"
          using True i(3) by (cases j) (auto intro: order_trans)
      qed
      with h show ?thesis by (intro exI [of _ 0]) simp
    next
      case False
      then have lt: "f (xs ! i) < f x" by simp
      then have h: "hd (sort_key f (x # xs)) = (x # xs) ! Suc i"
        using s ne i(2) False by (simp add: hd_insort_key)
      have a: "\<forall>j<length (x # xs). f ((x # xs) ! Suc i) \<le> f ((x # xs) ! j)"
      proof (intro allI impI)
        fix j assume "j < length (x # xs)"
        then show "f ((x # xs) ! Suc i) \<le> f ((x # xs) ! j)"
          using lt i(3) by (cases j) auto
      qed
      have b: "\<forall>j<Suc i. f ((x # xs) ! Suc i) < f ((x # xs) ! j)"
      proof (intro allI impI)
        fix j assume "j < Suc i"
        then show "f ((x # xs) ! Suc i) < f ((x # xs) ! j)"
          using lt i(4) by (cases j) auto
      qed
      from h a b i(1) show ?thesis by (intro exI [of _ "Suc i"]) simp
    qed
  qed
qed

declare suffixLoop.simps [simp del] prefixLoop.simps [simp del]

lemma matchingRun_drop:
  "i < length s \<Longrightarrow> i < length t \<Longrightarrow>
   matchingRun (drop i s) (drop i t) =
     (if s ! i = t ! i then Suc (matchingRun (drop (Suc i) s) (drop (Suc i) t)) else 0)"
  by (simp add: Cons_nth_drop_Suc [symmetric])

lemma matchingRun_Nil2 [simp]: "matchingRun s [] = 0"
  by (cases s) auto


lemma suffixLoop_run:
  "m = min (length s) (length t) \<Longrightarrow>
   suffixLoop s t m i sc = sc + of_nat (matchingRun (drop i s) (drop i t))"
proof (induction s t m i sc rule: suffixLoop.induct)
  case (1 s t m i sc)
  show ?case
  proof (cases "i < m")
    case True
    then have il: "i < length s" "i < length t" using "1.prems" by auto
    show ?thesis
    proof (cases "s ! i = t ! i")
      case e: True
      from "1.IH" [OF True e "1.prems"] True e il show ?thesis
        by (subst suffixLoop.simps) (simp add: matchingRun_drop)
    next
      case False
      with True il show ?thesis
        by (subst suffixLoop.simps) (simp add: matchingRun_drop)
    qed
  next
    case False
    then have "drop i s = [] \<or> drop i t = []" using "1.prems" by auto
    then have "matchingRun (drop i s) (drop i t) = 0" by auto
    with False show ?thesis by (subst suffixLoop.simps) simp
  qed
qed

lemma prefixLoop_run:
  "m = min (length p) (length t) \<Longrightarrow> 1 \<le> i \<Longrightarrow>
   prefixLoop p t m i sc
     = sc + of_nat (matchingRun (drop (i - 1) (rev p)) (drop (i - 1) (rev t))) / 2"
proof (induction p t m i sc rule: prefixLoop.induct)
  case (1 p t m i sc)
  show ?case
  proof (cases "i \<le> m")
    case True
    then have il: "i - 1 < length (rev p)" "i - 1 < length (rev t)"
      using "1.prems" by auto
    have n: "rev p ! (i - 1) = p ! (length p - i)" "rev t ! (i - 1) = t ! (length t - i)"
      using il "1.prems"(2) by (simp_all add: rev_nth)
    have si: "Suc (i - 1) = i + 1 - 1" using "1.prems"(2) by simp
    show ?thesis
    proof (cases "p ! (length p - i) = t ! (length t - i)")
      case e: True
      have "prefixLoop p t m (i + 1) (sc + 1 / 2)
            = sc + 1 / 2 + of_nat (matchingRun (drop (i + 1 - 1) (rev p)) (drop (i + 1 - 1) (rev t))) / 2"
        using "1.IH" [OF True e "1.prems"(1)] by simp
      moreover have "matchingRun (drop (i - 1) (rev p)) (drop (i - 1) (rev t))
            = Suc (matchingRun (drop (i + 1 - 1) (rev p)) (drop (i + 1 - 1) (rev t)))"
        using matchingRun_drop [OF il] n e si by simp
      ultimately show ?thesis using True e
        by (subst prefixLoop.simps) (simp add: field_simps)
    next
      case False
      then have "matchingRun (drop (i - 1) (rev p)) (drop (i - 1) (rev t)) = 0"
        using matchingRun_drop [OF il] n by simp
      with True False show ?thesis by (subst prefixLoop.simps) simp
    qed
  next
    case False
    then have "drop (i - 1) (rev p) = [] \<or> drop (i - 1) (rev t) = []"
      using "1.prems" by auto
    then have "matchingRun (drop (i - 1) (rev p)) (drop (i - 1) (rev t)) = 0" by auto
    with False show ?thesis by (subst prefixLoop.simps) simp
  qed
qed

lemma scoreMatch_described:
  "score (scoreMatch doc a pos) = describedScore doc a pos"
  "pfrom (scoreMatch doc a pos) = pfrom pos"
  "pto (scoreMatch doc a pos) = pto pos"
proof -
  show "score (scoreMatch doc a pos) = describedScore doc a pos"
    by (simp add: scoreMatch_def describedScore_def contextAfter_def contextBefore_def
        Let_def suffixLoop_run prefixLoop_run)
  show "pfrom (scoreMatch doc a pos) = pfrom pos" "pto (scoreMatch doc a pos) = pto pos"
    by (simp_all add: scoreMatch_def Let_def)
qed








section \<open>Properties of findAnchorPosition\<close>






lemma find_empty_doc: "findAnchorPosition [] a = Some (Inr None)"
  by (simp add: findAnchorPosition_def)

lemma find_empty_exact:
  "doc \<noteq> [] \<Longrightarrow> exact a = [] \<Longrightarrow> findAnchorPosition doc a = None"
  by (simp add: findAnchorPosition_def execLoop_empty_diverges)

lemma find_unfold:
  assumes "doc \<noteq> []" "exact a \<noteq> []"
  shows "findAnchorPosition doc a =
    (let ms = map (mkPos (exact a)) (matchesFrom (exact a) doc 0) in
     if length ms = 0 then Some (Inr None)
     else if length ms = 1 then Some (Inr (Some (ms ! 0)))
     else (case sortByScore (map (scoreMatch doc a) ms) of
             [] \<Rightarrow> Some (Inl TypeError)
           | bestMatch # _ \<Rightarrow> Some (Inr (Some \<lparr>pfrom = pfrom bestMatch, pto = pto bestMatch\<rparr>))))"
  using assms
  by (simp add: findAnchorPosition_def compile_escape execLoop_matchesFrom [OF assms(2)] Let_def)


lemma find_select:
  assumes "doc \<noteq> []" "exact a \<noteq> []"
    and ms: "ms = map (mkPos (exact a)) (matchesFrom (exact a) doc 0)"
    and ne: "ms \<noteq> []"
  shows "\<exists>i<length ms. findAnchorPosition doc a = Some (Inr (Some (ms ! i)))
      \<and> (\<forall>j<length ms. describedScore doc a (ms ! j) \<le> describedScore doc a (ms ! i))
      \<and> (\<forall>j<i. describedScore doc a (ms ! j) < describedScore doc a (ms ! i))"
proof (cases "length ms = 1")
  case True
  then have "findAnchorPosition doc a = Some (Inr (Some (ms ! 0)))"
    using find_unfold [OF assms(1,2)] ms [symmetric] ne by (simp add: Let_def)
  then show ?thesis using True by (intro exI [of _ 0]) simp
next
  case False
  then have len: "length ms \<noteq> 0" "length ms \<noteq> 1" using ne by auto
  let ?sc = "map (scoreMatch doc a) ms"
  let ?f = "\<lambda>m :: scoredMatch. - score m"
  have "?sc \<noteq> []" using ne by simp
  from sort_key_hd [OF this, of ?f] obtain i where i: "i < length ?sc"
    "hd (sort_key ?f ?sc) = ?sc ! i"
    "\<forall>j<length ?sc. ?f (?sc ! i) \<le> ?f (?sc ! j)"
    "\<forall>j<i. ?f (?sc ! i) < ?f (?sc ! j)" by blast
  have il: "i < length ms" using i(1) by simp
  have "sort_key ?f ?sc \<noteq> []" using \<open>?sc \<noteq> []\<close> by (rule sort_key_ne)
  then obtain b bs where b: "sortByScore ?sc = b # bs" "b = ?sc ! i"
    using i(2) unfolding sortByScore_def by (cases "sort_key ?f ?sc") auto
  have bi: "b = scoreMatch doc a (ms ! i)" using b(2) il by simp
  have "findAnchorPosition doc a = Some (Inr (Some \<lparr>pfrom = pfrom b, pto = pto b\<rparr>))"
    using find_unfold [OF assms(1,2)] ms [symmetric] len b(1) by (simp add: Let_def)
  then have r: "findAnchorPosition doc a = Some (Inr (Some (ms ! i)))"
    unfolding bi scoreMatch_described by simp
  have s1: "\<forall>j<length ms. describedScore doc a (ms ! j) \<le> describedScore doc a (ms ! i)"
    using i(3) il by (simp add: scoreMatch_described)
  have s2: "\<forall>j<i. describedScore doc a (ms ! j) < describedScore doc a (ms ! i)"
    using i(4) il by (simp add: scoreMatch_described)
  from il r s1 s2 show ?thesis by blast
qed



lemma find_cases:
  "findAnchorPosition doc a = None \<and> doc \<noteq> [] \<and> exact a = []
   \<or> findAnchorPosition doc a = Some (Inr None)
       \<and> (doc = [] \<or> exact a \<noteq> [] \<and> matchesFrom (exact a) doc 0 = [])
   \<or> (\<exists>i < length (matchesFrom (exact a) doc 0).
         findAnchorPosition doc a = Some (Inr (Some (mkPos (exact a) (matchesFrom (exact a) doc 0 ! i))))
         \<and> doc \<noteq> [] \<and> exact a \<noteq> [])"
proof (cases "doc = []")
  case True
  then show ?thesis using find_empty_doc by simp
next
  case d: False
  show ?thesis
  proof (cases "exact a = []")
    case True
    then show ?thesis using find_empty_exact [OF d] d by simp
  next
    case e: False
    show ?thesis
    proof (cases "matchesFrom (exact a) doc 0 = []")
      case True
      then show ?thesis using find_unfold [OF d e] e by (simp add: Let_def)
    next
      case False
      then have "map (mkPos (exact a)) (matchesFrom (exact a) doc 0) \<noteq> []" by simp
      from find_select [OF d e refl this] d e show ?thesis by auto
    qed
  qed
qed

lemma occurrence_range:
  assumes "occursAt ex doc p"
  shows "0 \<le> pfrom (mkPos ex p) \<and> pfrom (mkPos ex p) \<le> pto (mkPos ex p)
       \<and> pto (mkPos ex p) \<le> int (length doc)
       \<and> pto (mkPos ex p) - pfrom (mkPos ex p) = int (length ex)
       \<and> slice doc (nat (pfrom (mkPos ex p))) (nat (pto (mkPos ex p))) = ex"
  using assms by (simp add: occursAt_def mkPos_def nat_add_distrib)

text \<open>
  Claim C10. Whenever findAnchorPosition returns a position \<open>{from, to}\<close>, it is a valid
  range of the document: \<open>0 \<le> from \<le> to \<le> length doc\<close>, its width is the length of
  \<open>anchor.exact\<close>, and \<open>doc[from:to]\<close> is \<open>anchor.exact\<close>.
\<close>

theorem find_result_in_bounds:
  assumes "findAnchorPosition doc a = Some (Inr (Some r))"
  shows "0 \<le> pfrom r \<and> pfrom r \<le> pto r \<and> pto r \<le> int (length doc)
       \<and> pto r - pfrom r = int (length (exact a))
       \<and> slice doc (nat (pfrom r)) (nat (pto r)) = exact a"
proof -
  from find_cases [of doc a] assms obtain i where
    i: "i < length (matchesFrom (exact a) doc 0)"
       "r = mkPos (exact a) (matchesFrom (exact a) doc 0 ! i)"
    by auto
  have "occursAt (exact a) doc (matchesFrom (exact a) doc 0 ! i)"
    using matchesFrom_occurs [of "matchesFrom (exact a) doc 0 ! i" "exact a" doc 0] i(1) by simp
  then show ?thesis unfolding i(2) by (rule occurrence_range)
qed

theorem find_result_in_bounds_witness:
  "slice ''test one test two test three'' 9 13 = ''test''"
proof -
  have h: "findAnchorPosition ''test one test two test three''
             \<lparr>prefix = ''one '', exact = ''test'', suffix = '' two''\<rparr>
           = Some (Inr (Some \<lparr>pfrom = 9, pto = 13\<rparr>))"
    by code_simp
  from find_result_in_bounds [OF h] show ?thesis by simp
qed






section \<open>Properties of createAnchor\<close>

lemma substring_in_bounds:
  assumes "0 \<le> a" "a \<le> b" "b \<le> int (length s)"
  shows "substring s a b = slice s (nat a) (nat b)"
proof -
  have "min (max a 0) (int (length s)) = a" "min (max b 0) (int (length s)) = b"
    using assms by auto
  moreover have "nat (b - a) = nat b - nat a" using assms by auto
  ultimately show ?thesis using assms by (simp add: substring_def slice_def Let_def)
qed

text \<open>
  Claim C5. For an in-bounds range \<open>0 \<le> from \<le> to \<le> length doc\<close>, createAnchor returns
  \<open>exact = doc[from:to]\<close>, \<open>prefix = doc[max(0, from - 32):from]\<close> and
  \<open>suffix = doc[to:min(length doc, to + 32)]\<close>. Hence prefix and suffix have at most 32
  characters, the prefix is empty when \<open>from = 0\<close>, the suffix is empty when
  \<open>to = length doc\<close>, and an empty selection gives the empty exact text. The function is
  total: it has no failing branch.
\<close>

theorem createAnchor_fields:
  assumes "0 \<le> from" "from \<le> to" "to \<le> int (length doc)"
  shows "exact (createAnchor doc from to) = slice doc (nat from) (nat to)
       \<and> prefix (createAnchor doc from to) = slice doc (nat (max 0 (from - 32))) (nat from)
       \<and> suffix (createAnchor doc from to) =
           slice doc (nat to) (nat (min (int (length doc)) (to + 32)))
       \<and> length (prefix (createAnchor doc from to)) \<le> 32
       \<and> length (suffix (createAnchor doc from to)) \<le> 32
       \<and> (from = 0 \<longrightarrow> prefix (createAnchor doc from to) = [])
       \<and> (to = int (length doc) \<longrightarrow> suffix (createAnchor doc from to) = [])
       \<and> (from = to \<longrightarrow> exact (createAnchor doc from to) = [])"
proof -
  have e: "exact (createAnchor doc from to) = slice doc (nat from) (nat to)"
    using assms by (simp add: createAnchor_def Let_def substring_in_bounds)
  have p: "prefix (createAnchor doc from to) = slice doc (nat (max 0 (from - 32))) (nat from)"
    using assms by (simp add: createAnchor_def Let_def CONTEXT_LENGTH_def substring_in_bounds)
  have s: "suffix (createAnchor doc from to) =
           slice doc (nat to) (nat (min (int (length doc)) (to + 32)))"
    using assms by (simp add: createAnchor_def Let_def CONTEXT_LENGTH_def substring_in_bounds)
  have lp: "length (prefix (createAnchor doc from to)) \<le> 32"
    unfolding p using assms by (auto simp: slice_def)
  have ls: "length (suffix (createAnchor doc from to)) \<le> 32"
    unfolding s using assms by (auto simp: slice_def)
  have p0: "from = 0 \<longrightarrow> prefix (createAnchor doc from to) = []"
    unfolding p by (simp add: slice_def)
  have s0: "to = int (length doc) \<longrightarrow> suffix (createAnchor doc from to) = []"
    unfolding s by (simp add: slice_def)
  have e0: "from = to \<longrightarrow> exact (createAnchor doc from to) = []"
    unfolding e by (simp add: slice_def)
  from e p s lp ls p0 s0 e0 show ?thesis by blast
qed

theorem createAnchor_fields_witness:
  "exact (createAnchor ''The quick brown fox jumps over the lazy dog.'' 16 19) = ''fox''
   \<and> prefix (createAnchor ''The quick brown fox jumps over the lazy dog.'' 16 19)
       = ''The quick brown ''
   \<and> suffix (createAnchor ''The quick brown fox jumps over the lazy dog.'' 16 19)
       = '' jumps over the lazy dog.''
   \<and> exact (createAnchor ''Some text here.'' 5 5) = []"
  using createAnchor_fields [of 16 19 "''The quick brown fox jumps over the lazy dog.''"]
    createAnchor_fields [of 5 5 "''Some text here.''"]
  by (simp add: slice_def)

section \<open>Scoring and selection\<close>


lemma startsWith_Nil [simp]: "startsWith s []"
  by (simp add: startsWith_def)

lemma endsWith_Nil [simp]: "endsWith s []"
  by (simp add: endsWith_def)

lemma startsWith_refl [simp]: "startsWith s s"
  by (simp add: startsWith_def)

lemma endsWith_refl [simp]: "endsWith s s"
  by (simp add: endsWith_def)








section \<open>Creating an anchor and finding it again\<close>







text \<open>
  Claim C7 at the input \<open>doc = "Some text here."\<close> with the anchor of the empty selection
  \<open>[5, 5]\<close>: the exact text is empty, every call of \<^verbatim>\<open>exec\<close> matches the empty
  text at index 0 and leaves \<^verbatim>\<open>lastIndex\<close> at 0, and findAnchorPosition never leaves
  its loop.
\<close>

theorem empty_exact_never_returns:
  "exact (createAnchor ''Some text here.'' 5 5) = []
   \<and> findAnchorPosition ''Some text here.'' (createAnchor ''Some text here.'' 5 5) = None"
proof -
  have e: "exact (createAnchor ''Some text here.'' 5 5) = []" by code_simp
  have "findAnchorPosition ''Some text here.'' (createAnchor ''Some text here.'' 5 5) = None"
    by (rule find_empty_exact [OF _ e]) simp
  with e show ?thesis by simp
qed

section \<open>Properties of the file histories\<close>

lemma historyOf_upd [simp]: "historyOf (hm(filePath \<mapsto> h)) filePath = h"
  by (simp add: historyOf_def)


lemma historyOf_None: "hm filePath = None \<Longrightarrow> historyOf hm filePath = emptyHistory"
  by (simp add: historyOf_def)

lemma createSnapshot_history:
  "historyOf (createSnapshot hm now filePath cont cur scr) filePath =
     (let h = historyOf hm filePath;
          kept = (if currentIndex h < int (length (snapshots h)) - 1
                  then take (nat (currentIndex h + 1)) (snapshots h)
                  else snapshots h);
          snaps = kept @ [\<lparr>content = cont, timestamp = now, cursor = cur, scroll = scr\<rparr>]
      in \<lparr>snapshots = snaps, currentIndex = int (length snaps) - 1\<rparr>)"
  by (simp add: createSnapshot_def Let_def)

lemma undo_history:
  "historyOf (snd (undo hm filePath)) filePath =
     (if currentIndex (historyOf hm filePath) \<le> 0 then historyOf hm filePath
      else (historyOf hm filePath)\<lparr>currentIndex := currentIndex (historyOf hm filePath) - 1\<rparr>)"
  by (simp add: undo_def Let_def)

text \<open>Every history that the operations can produce satisfies the invariant of the data
  model.\<close>

lemma validHistory_kept:
  "validHistory emptyHistory"
  "validHistory (historyOf hm f) \<Longrightarrow>
     validHistory (historyOf (createSnapshot hm now filePath cont cur scr) f)"
  "validHistory (historyOf hm f) \<Longrightarrow> validHistory (historyOf (snd (undo hm filePath)) f)"
  "validHistory (historyOf hm f) \<Longrightarrow> validHistory (historyOf (snd (redo hm filePath)) f)"
proof -
  show "validHistory emptyHistory" by (simp add: validHistory_def emptyHistory_def)
  show "validHistory (historyOf hm f) \<Longrightarrow>
     validHistory (historyOf (createSnapshot hm now filePath cont cur scr) f)"
    by (cases "f = filePath")
      (auto simp: createSnapshot_def Let_def validHistory_def historyOf_def)
  show "validHistory (historyOf hm f) \<Longrightarrow> validHistory (historyOf (snd (undo hm filePath)) f)"
    by (cases "f = filePath") (auto simp: undo_def Let_def validHistory_def historyOf_def)
  show "validHistory (historyOf hm f) \<Longrightarrow> validHistory (historyOf (snd (redo hm filePath)) f)"
    by (cases "f = filePath") (auto simp: redo_def Let_def validHistory_def historyOf_def)
qed

text \<open>
  Claim C8. For every file history, createSnapshot called while \<open>currentIndex\<close> is not
  at the tail discards all snapshots after \<open>currentIndex\<close>, appends the new one, and
  leaves \<open>currentIndex = snapshots.length - 1\<close>.
  In particular, for a file without history, createSnapshot three times, undo twice and
  createSnapshot once more leave two snapshots, the first and the last created, with
  \<open>currentIndex = 1\<close>.
\<close>

theorem createSnapshot_branch_truncation:
  "(currentIndex (historyOf hm filePath) < int (length (snapshots (historyOf hm filePath))) - 1
    \<longrightarrow> snapshots (historyOf (createSnapshot hm now filePath cont cur scr) filePath)
          = take (nat (currentIndex (historyOf hm filePath) + 1)) (snapshots (historyOf hm filePath))
            @ [\<lparr>content = cont, timestamp = now, cursor = cur, scroll = scr\<rparr>]
        \<and> currentIndex (historyOf (createSnapshot hm now filePath cont cur scr) filePath)
          = int (length (snapshots (historyOf (createSnapshot hm now filePath cont cur scr) filePath))) - 1)
   \<and> (hm filePath = None \<longrightarrow>
        (let hm1 = createSnapshot hm t1 filePath c1 cu1 sc1;
             hm2 = createSnapshot hm1 t2 filePath c2 cu2 sc2;
             hm3 = createSnapshot hm2 t3 filePath c3 cu3 sc3;
             hm4 = snd (undo hm3 filePath);
             hm5 = snd (undo hm4 filePath);
             hm6 = createSnapshot hm5 t4 filePath c4 cu4 sc4
         in length (snapshots (historyOf hm6 filePath)) = 2
            \<and> currentIndex (historyOf hm6 filePath) = 1
            \<and> snapshots (historyOf hm6 filePath)
                = [\<lparr>content = c1, timestamp = t1, cursor = cu1, scroll = sc1\<rparr>,
                   \<lparr>content = c4, timestamp = t4, cursor = cu4, scroll = sc4\<rparr>]))"
proof (rule conjI)
  show "currentIndex (historyOf hm filePath) < int (length (snapshots (historyOf hm filePath))) - 1
    \<longrightarrow> snapshots (historyOf (createSnapshot hm now filePath cont cur scr) filePath)
          = take (nat (currentIndex (historyOf hm filePath) + 1)) (snapshots (historyOf hm filePath))
            @ [\<lparr>content = cont, timestamp = now, cursor = cur, scroll = scr\<rparr>]
        \<and> currentIndex (historyOf (createSnapshot hm now filePath cont cur scr) filePath)
          = int (length (snapshots (historyOf (createSnapshot hm now filePath cont cur scr) filePath))) - 1"
    by (simp add: createSnapshot_history Let_def)
next
  define s1 where "s1 = \<lparr>content = c1, timestamp = t1, cursor = cu1, scroll = sc1\<rparr>"
  define s2 where "s2 = \<lparr>content = c2, timestamp = t2, cursor = cu2, scroll = sc2\<rparr>"
  define s3 where "s3 = \<lparr>content = c3, timestamp = t3, cursor = cu3, scroll = sc3\<rparr>"
  define s4 where "s4 = \<lparr>content = c4, timestamp = t4, cursor = cu4, scroll = sc4\<rparr>"
  define hm1 where "hm1 = createSnapshot hm t1 filePath c1 cu1 sc1"
  define hm2 where "hm2 = createSnapshot hm1 t2 filePath c2 cu2 sc2"
  define hm3 where "hm3 = createSnapshot hm2 t3 filePath c3 cu3 sc3"
  define hm4 where "hm4 = snd (undo hm3 filePath)"
  define hm5 where "hm5 = snd (undo hm4 filePath)"
  define hm6 where "hm6 = createSnapshot hm5 t4 filePath c4 cu4 sc4"
  have "historyOf hm6 filePath = \<lparr>snapshots = [s1, s4], currentIndex = 1\<rparr>"
    if n: "hm filePath = None"
  proof -
    have h1: "historyOf hm1 filePath = \<lparr>snapshots = [s1], currentIndex = 0\<rparr>"
      unfolding hm1_def createSnapshot_history historyOf_None [of hm filePath, OF n]
      by (simp add: emptyHistory_def s1_def)
    have h2: "historyOf hm2 filePath = \<lparr>snapshots = [s1, s2], currentIndex = 1\<rparr>"
      unfolding hm2_def createSnapshot_history h1 by (simp add: s2_def)
    have h3: "historyOf hm3 filePath = \<lparr>snapshots = [s1, s2, s3], currentIndex = 2\<rparr>"
      unfolding hm3_def createSnapshot_history h2 by (simp add: s3_def)
    have h4: "historyOf hm4 filePath = \<lparr>snapshots = [s1, s2, s3], currentIndex = 1\<rparr>"
      unfolding hm4_def undo_history h3 by simp
    have h5: "historyOf hm5 filePath = \<lparr>snapshots = [s1, s2, s3], currentIndex = 0\<rparr>"
      unfolding hm5_def undo_history h4 by simp
    show ?thesis
      unfolding hm6_def createSnapshot_history h5 by (simp add: s4_def)
  qed
  then show "hm filePath = None \<longrightarrow>
        (let hm1 = createSnapshot hm t1 filePath c1 cu1 sc1;
             hm2 = createSnapshot hm1 t2 filePath c2 cu2 sc2;
             hm3 = createSnapshot hm2 t3 filePath c3 cu3 sc3;
             hm4 = snd (undo hm3 filePath);
             hm5 = snd (undo hm4 filePath);
             hm6 = createSnapshot hm5 t4 filePath c4 cu4 sc4
         in length (snapshots (historyOf hm6 filePath)) = 2
            \<and> currentIndex (historyOf hm6 filePath) = 1
            \<and> snapshots (historyOf hm6 filePath)
                = [\<lparr>content = c1, timestamp = t1, cursor = cu1, scroll = sc1\<rparr>,
                   \<lparr>content = c4, timestamp = t4, cursor = cu4, scroll = sc4\<rparr>])"
    unfolding Let_def hm6_def hm5_def hm4_def hm3_def hm2_def hm1_def s1_def s4_def
    by simp
qed

theorem createSnapshot_branch_truncation_witness:
  "snapshots (historyOf
      (createSnapshot
         [''notes.md'' \<mapsto> \<lparr>snapshots =
            [\<lparr>content = ''a'', timestamp = 1, cursor = (0, 0), scroll = (0, 0)\<rparr>,
             \<lparr>content = ''ab'', timestamp = 2, cursor = (0, 1), scroll = (0, 0)\<rparr>,
             \<lparr>content = ''abc'', timestamp = 3, cursor = (0, 2), scroll = (0, 0)\<rparr>],
            currentIndex = 0\<rparr>]
         4 ''notes.md'' ''ax'' (0, 2) (0, 0)) ''notes.md'')
   = [\<lparr>content = ''a'', timestamp = 1, cursor = (0, 0), scroll = (0, 0)\<rparr>,
      \<lparr>content = ''ax'', timestamp = 4, cursor = (0, 2), scroll = (0, 0)\<rparr>]
   \<and> length (snapshots (historyOf
        (createSnapshot (snd (undo (snd (undo
           (createSnapshot (createSnapshot (createSnapshot Map.empty
              1 ''notes.md'' ''a'' (0, 0) (0, 0))
              2 ''notes.md'' ''ab'' (0, 1) (0, 0))
              3 ''notes.md'' ''abc'' (0, 2) (0, 0))
           ''notes.md'')) ''notes.md''))
           4 ''notes.md'' ''ax'' (0, 2) (0, 0)) ''notes.md'')) = 2"
  using createSnapshot_branch_truncation
    [of "[''notes.md'' \<mapsto> \<lparr>snapshots =
            [\<lparr>content = ''a'', timestamp = 1, cursor = (0, 0), scroll = (0, 0)\<rparr>,
             \<lparr>content = ''ab'', timestamp = 2, cursor = (0, 1), scroll = (0, 0)\<rparr>,
             \<lparr>content = ''abc'', timestamp = 3, cursor = (0, 2), scroll = (0, 0)\<rparr>],
            currentIndex = 0\<rparr>]" "''notes.md''" 4 "''ax''" "(0, 2)" "(0, 0)"]
    createSnapshot_branch_truncation
    [of Map.empty "''notes.md''" _ _ _ _ 1 "''a''" "(0, 0)" "(0, 0)" 2 "''ab''" "(0, 1)" "(0, 0)"
        3 "''abc''" "(0, 2)" "(0, 0)" 4 "''ax''" "(0, 2)" "(0, 0)"]
  by (simp add: Let_def)

text \<open>
  Claim C9. For every file history (with \<open>-1 \<le> currentIndex < snapshots.length\<close>, the
  invariant of the data model, which every operation keeps): undo with
  \<open>currentIndex \<le> 0\<close> returns null and changes nothing, and otherwise decrements
  \<open>currentIndex\<close> by exactly one, leaves the snapshots as they are and returns the snapshot
  now pointed to; redo with \<open>currentIndex \<ge> snapshots.length - 1\<close> returns null and changes
  nothing, and otherwise increments \<open>currentIndex\<close> by exactly one and returns the snapshot
  now pointed to.
\<close>

theorem undo_redo_steps:
  assumes "validHistory (historyOf hm filePath)"
  shows "(currentIndex (historyOf hm filePath) \<le> 0 \<longrightarrow> undo hm filePath = (None, hm))
     \<and> (0 < currentIndex (historyOf hm filePath) \<longrightarrow>
           fst (undo hm filePath)
             = Some (snapshots (historyOf hm filePath) ! nat (currentIndex (historyOf hm filePath) - 1))
           \<and> historyOf (snd (undo hm filePath)) filePath
             = (historyOf hm filePath)\<lparr>currentIndex := currentIndex (historyOf hm filePath) - 1\<rparr>)
     \<and> (currentIndex (historyOf hm filePath) \<ge> int (length (snapshots (historyOf hm filePath))) - 1
           \<longrightarrow> redo hm filePath = (None, hm))
     \<and> (currentIndex (historyOf hm filePath) < int (length (snapshots (historyOf hm filePath))) - 1 \<longrightarrow>
           fst (redo hm filePath)
             = Some (snapshots (historyOf hm filePath) ! nat (currentIndex (historyOf hm filePath) + 1))
           \<and> historyOf (snd (redo hm filePath)) filePath
             = (historyOf hm filePath)\<lparr>currentIndex := currentIndex (historyOf hm filePath) + 1\<rparr>)"
proof -
  let ?h = "historyOf hm filePath"
  from assms have v: "- 1 \<le> currentIndex ?h" "currentIndex ?h < int (length (snapshots ?h))"
    by (simp_all add: validHistory_def)
  have a: "currentIndex ?h \<le> 0 \<longrightarrow> undo hm filePath = (None, hm)"
    by (simp add: undo_def Let_def)
  have b: "0 < currentIndex ?h \<longrightarrow>
           fst (undo hm filePath) = Some (snapshots ?h ! nat (currentIndex ?h - 1))
           \<and> historyOf (snd (undo hm filePath)) filePath = ?h\<lparr>currentIndex := currentIndex ?h - 1\<rparr>"
    using v by (simp add: undo_def Let_def snapshotAt_def)
  have c: "currentIndex ?h \<ge> int (length (snapshots ?h)) - 1 \<longrightarrow> redo hm filePath = (None, hm)"
    by (simp add: redo_def Let_def)
  have d: "currentIndex ?h < int (length (snapshots ?h)) - 1 \<longrightarrow>
           fst (redo hm filePath) = Some (snapshots ?h ! nat (currentIndex ?h + 1))
           \<and> historyOf (snd (redo hm filePath)) filePath = ?h\<lparr>currentIndex := currentIndex ?h + 1\<rparr>"
    using v by (simp add: redo_def Let_def snapshotAt_def)
  from a b c d show ?thesis by blast
qed


theorem undo_redo_steps_witness:
  "fst (undo [''notes.md'' \<mapsto> \<lparr>snapshots =
            [\<lparr>content = ''a'', timestamp = 1, cursor = (0, 0), scroll = (0, 0)\<rparr>,
             \<lparr>content = ''ab'', timestamp = 2, cursor = (0, 1), scroll = (0, 0)\<rparr>],
            currentIndex = 1\<rparr>] ''notes.md'')
     = Some \<lparr>content = ''a'', timestamp = 1, cursor = (0, 0), scroll = (0, 0)\<rparr>
   \<and> fst (redo [''notes.md'' \<mapsto> \<lparr>snapshots =
            [\<lparr>content = ''a'', timestamp = 1, cursor = (0, 0), scroll = (0, 0)\<rparr>,
             \<lparr>content = ''ab'', timestamp = 2, cursor = (0, 1), scroll = (0, 0)\<rparr>],
            currentIndex = 1\<rparr>] ''notes.md'') = None
   \<and> fst (undo [''notes.md'' \<mapsto> \<lparr>snapshots =
            [\<lparr>content = ''a'', timestamp = 1, cursor = (0, 0), scroll = (0, 0)\<rparr>,
             \<lparr>content = ''ab'', timestamp = 2, cursor = (0, 1), scroll = (0, 0)\<rparr>],
            currentIndex = 0\<rparr>] ''notes.md'') = None
   \<and> fst (redo [''notes.md'' \<mapsto> \<lparr>snapshots =
            [\<lparr>content = ''a'', timestamp = 1, cursor = (0, 0), scroll = (0, 0)\<rparr>,
             \<lparr>content = ''ab'', timestamp = 2, cursor = (0, 1), scroll = (0, 0)\<rparr>],
            currentIndex = 0\<rparr>] ''notes.md'')
     = Some \<lparr>content = ''ab'', timestamp = 2, cursor = (0, 1), scroll = (0, 0)\<rparr>"
  using undo_redo_steps
    [of "[''notes.md'' \<mapsto> \<lparr>snapshots =
            [\<lparr>content = ''a'', timestamp = 1, cursor = (0, 0), scroll = (0, 0)\<rparr>,
             \<lparr>content = ''ab'', timestamp = 2, cursor = (0, 1), scroll = (0, 0)\<rparr>],
            currentIndex = 1\<rparr>]" "''notes.md''"]
    undo_redo_steps
    [of "[''notes.md'' \<mapsto> \<lparr>snapshots =
            [\<lparr>content = ''a'', timestamp = 1, cursor = (0, 0), scroll = (0, 0)\<rparr>,
             \<lparr>content = ''ab'', timestamp = 2, cursor = (0, 1), scroll = (0, 0)\<rparr>],
            currentIndex = 0\<rparr>]" "''notes.md''"]
  by (simp add: validHistory_def)

subsection \<open>The navigation history follows the same rules\<close>

lemma addToHistory_truncates:
  assumes "- 1 \<le> historyIndex st"
  shows "navigationHistory (addToHistory st)
           = take (nat (historyIndex st + 1)) (navigationHistory st)
             @ [\<lparr>path = currentPath st, dirHandle = currentDirHandle st,
                 fileHandle = currentFileHandle st, filename = currentFilename st\<rparr>]"
    and "historyIndex (addToHistory st) = int (length (navigationHistory (addToHistory st))) - 1"
  using assms by (simp_all add: addToHistory_def sliceTo_def Let_def)

lemma goBack_step:
  "historyIndex st \<le> 0 \<Longrightarrow> goBack st = Inr st"
  "0 < historyIndex st \<Longrightarrow> historyIndex st < int (length (navigationHistory st)) \<Longrightarrow>
     \<exists>st'. goBack st = Inr st' \<and> historyIndex st' = historyIndex st - 1
        \<and> navigationHistory st' = navigationHistory st
        \<and> currentPath st' = path (navigationHistory st ! nat (historyIndex st - 1))
        \<and> currentDirHandle st' = dirHandle (navigationHistory st ! nat (historyIndex st - 1))
        \<and> currentFileHandle st' = fileHandle (navigationHistory st ! nat (historyIndex st - 1))"
  by (simp_all add: goBack_def restore_def Let_def)

lemma goForward_step:
  "historyIndex st \<ge> int (length (navigationHistory st)) - 1 \<Longrightarrow> goForward st = Inr st"
  "- 1 \<le> historyIndex st \<Longrightarrow> historyIndex st < int (length (navigationHistory st)) - 1 \<Longrightarrow>
     \<exists>st'. goForward st = Inr st' \<and> historyIndex st' = historyIndex st + 1
        \<and> navigationHistory st' = navigationHistory st
        \<and> currentPath st' = path (navigationHistory st ! nat (historyIndex st + 1))
        \<and> currentDirHandle st' = dirHandle (navigationHistory st ! nat (historyIndex st + 1))
        \<and> currentFileHandle st' = fileHandle (navigationHistory st ! nat (historyIndex st + 1))"
  by (simp_all add: goForward_def restore_def Let_def)

lemma navigation_branch_truncation:
  assumes "navigationHistory st = []" "historyIndex st = - 1"
    and "goBack (addToHistory (addToHistory (addToHistory st))) = Inr st4"
    and "goBack st4 = Inr st5"
  shows "length (navigationHistory (addToHistory st5)) = 2"
    and "historyIndex (addToHistory st5) = 1"
proof -
  let ?st3 = "addToHistory (addToHistory (addToHistory st))"
  have l3: "length (navigationHistory ?st3) = 3" "historyIndex ?st3 = 2"
    using assms(1,2) by (simp_all add: addToHistory_def sliceTo_def Let_def)
  from goBack_step(2) [of ?st3] l3 assms(3)
  have l4: "length (navigationHistory st4) = 3" "historyIndex st4 = 1" by auto
  from goBack_step(2) [of st4] l4 assms(4)
  have l5: "length (navigationHistory st5) = 3" "historyIndex st5 = 0" by auto
  show "length (navigationHistory (addToHistory st5)) = 2"
    "historyIndex (addToHistory st5) = 1"
    using l5 by (simp_all add: addToHistory_def sliceTo_def Let_def)
qed

end
